theory Spec2Isabelle
  imports Main "HOL-Library.Word"
begin

unbundle bit_operations_syntax

section \<open>Packed k-mers (util.c)\<close>

text \<open>
  A k-mer is packed two bits per symbol into an unsigned 64-bit integer
  (\<^verbatim>\<open>typedef unsigned long kmer\<close>); the last symbol of the string sits in the two
  lowest bits.
\<close>

type_synonym kmer = "64 word"

text \<open>
  The \<^verbatim>\<open>switch\<close> of \<^verbatim>\<open>encode\<close>: it assigns the local \<^verbatim>\<open>x\<close> on the four letters
  and has no default branch, so that any other character leaves \<^verbatim>\<open>x\<close> as it was.
\<close>

definition base_code :: "char \<Rightarrow> kmer \<Rightarrow> kmer" where
  "base_code c x =
     (if c = CHR ''A'' then 0
      else if c = CHR ''C'' then 1
      else if c = CHR ''G'' then 2
      else if c = CHR ''T'' then 3
      else x)"

text \<open>
  The loop of \<^verbatim>\<open>encode\<close>, reading \<^verbatim>\<open>str[i]\<close> for the \<open>n\<close> remaining indices. The
  arguments are the accumulator \<^verbatim>\<open>enc\<close> and the current content of \<^verbatim>\<open>x\<close>. Reading
  past the end of the character array is undefined in C: the model answers \<open>None\<close>.
\<close>

fun encode_loop :: "kmer \<Rightarrow> kmer \<Rightarrow> string \<Rightarrow> nat \<Rightarrow> kmer option" where
  "encode_loop enc x str 0 = Some enc"
| "encode_loop enc x [] (Suc n) = None"
| "encode_loop enc x (c # str) (Suc n) =
     (let x' = base_code c x in encode_loop (push_bit 2 enc OR x') x' str n)"

text \<open>
  \<^verbatim>\<open>kmer encode(const char* str, const int k)\<close>. The local \<^verbatim>\<open>x\<close> is not
  initialised by the source; \<open>x0\<close> stands for its indeterminate first content.
\<close>

definition encode :: "kmer \<Rightarrow> string \<Rightarrow> nat \<Rightarrow> kmer option" where
  "encode x0 str k = encode_loop 0 x0 str k"

text \<open>\<^verbatim>\<open>char base[] = {'A', 'C', 'G', 'T'}\<close>, read at \<^verbatim>\<open>enc_copy & 3\<close>.\<close>

definition base :: "kmer \<Rightarrow> char" where
  "base v = [CHR ''A'', CHR ''C'', CHR ''G'', CHR ''T''] ! unat v"

text \<open>
  The loop of \<^verbatim>\<open>decode\<close>: for \<^verbatim>\<open>i\<close> from \<^verbatim>\<open>k-1\<close> down to \<^verbatim>\<open>0\<close> it stores
  \<^verbatim>\<open>base[enc_copy & 3]\<close> at \<^verbatim>\<open>str[i]\<close> and shifts \<^verbatim>\<open>enc_copy\<close> right by two bits.
  The third argument counts the indices still to be written.
\<close>

fun decode_loop :: "string \<Rightarrow> kmer \<Rightarrow> nat \<Rightarrow> string" where
  "decode_loop str enc_copy 0 = str"
| "decode_loop str enc_copy (Suc i) =
     decode_loop (str[i := base (enc_copy AND 3)]) (drop_bit 2 enc_copy) i"

text \<open>
  \<^verbatim>\<open>char* decode(const kmer enc, const int k, char* str)\<close>, on a buffer of \<open>k\<close>
  characters (the source allocates one when it is handed \<^verbatim>\<open>NULL\<close>); every cell of
  the buffer is overwritten, so its first content does not matter.
\<close>

definition decode :: "kmer \<Rightarrow> nat \<Rightarrow> string" where
  "decode enc k = decode_loop (replicate k (CHR 0x00)) enc k"

text \<open>The strings of the codec's domain: those over the four letters.\<close>

definition dna :: "string \<Rightarrow> bool" where
  "dna str = list_all (\<lambda>c. c = CHR ''A'' \<or> c = CHR ''C'' \<or> c = CHR ''G'' \<or> c = CHR ''T'') str"

text \<open>
  The symbol at position \<open>i\<close>, counted from the last symbol of the string (position
  \<open>0\<close>): the two bits that the loops of the source read as
  \<^verbatim>\<open>(s >> 2*i) & 3\<close>.
\<close>

definition sym :: "kmer \<Rightarrow> nat \<Rightarrow> kmer" where
  "sym s i = drop_bit (2 * i) s AND 3"

section \<open>Reading the centers (util.c)\<close>









section \<open>The edit-distance oracle (util.c)\<close>

text \<open>
  The reference: the Levenshtein distance of two lists by the textbook recursion on
  their first elements.
\<close>

fun lev :: "'a list \<Rightarrow> 'a list \<Rightarrow> nat" where
  "lev [] ys = length ys"
| "lev (x # xs) [] = Suc (length xs)"
| "lev (x # xs) (y # ys) =
     min (min (lev xs (y # ys) + 1) (lev (x # xs) ys + 1))
         (lev xs ys + (if x = y then 0 else 1))"

text \<open>
  The inner loop of \<^verbatim>\<open>editDist2\<close>, over the columns \<^verbatim>\<open>j\<close>, for the \<open>n\<close> columns
  still to be filled. \<^verbatim>\<open>s1_copy\<close> is fixed in it, \<^verbatim>\<open>s2_copy\<close> moves right by two bits
  at every column, \<^verbatim>\<open>diag\<close> holds the former \<^verbatim>\<open>row[j-1]\<close>.
\<close>

fun editDist2_cols :: "kmer \<Rightarrow> kmer \<Rightarrow> nat \<Rightarrow> int \<Rightarrow> int list \<Rightarrow> nat \<Rightarrow> int list" where
  "editDist2_cols s1_copy s2_copy j diag row 0 = row"
| "editDist2_cols s1_copy s2_copy j diag row (Suc n) =
     (let cur = diag + (if s1_copy AND 3 = s2_copy AND 3 then 0 else 1);
          tmp = row ! j + 1;
          cur = (if cur > tmp then tmp else cur);
          tmp = row ! (j - 1) + 1;
          cur = (if cur > tmp then tmp else cur)
      in editDist2_cols s1_copy (drop_bit 2 s2_copy) (j + 1) (row ! j) (row[j := cur]) n)"

text \<open>
  The outer loop of \<^verbatim>\<open>editDist2\<close>, over the rows \<^verbatim>\<open>i\<close>, for the \<open>n\<close> rows still to
  be computed; the \<^verbatim>\<open>break\<close> leaves it with \<^verbatim>\<open>row[diag_index]\<close>, which is also what
  the function returns when the loop runs to its end.
\<close>

fun editDist2_rows ::
  "int \<Rightarrow> kmer \<Rightarrow> nat \<Rightarrow> nat \<Rightarrow> kmer \<Rightarrow> nat \<Rightarrow> int list \<Rightarrow> nat \<Rightarrow> int" where
  "editDist2_rows max_d s2 k2 i s1_copy diag_index row 0 = row ! diag_index"
| "editDist2_rows max_d s2 k2 i s1_copy diag_index row (Suc n) =
     (let diag_index = diag_index + 1;
          diag = row ! 0;
          row = row[0 := int i];
          row = editDist2_cols s1_copy s2 1 diag row k2
      in if max_d \<ge> 0 \<and> row ! diag_index \<ge> max_d then row ! diag_index
         else editDist2_rows max_d s2 k2 (i + 1) (drop_bit 2 s1_copy) diag_index row n)"

text \<open>The body of \<^verbatim>\<open>editDist2\<close> once \<^verbatim>\<open>k1 <= k2\<close> holds.\<close>

definition editDist2_ordered :: "kmer \<Rightarrow> nat \<Rightarrow> kmer \<Rightarrow> nat \<Rightarrow> int \<Rightarrow> int" where
  "editDist2_ordered s1 k1 s2 k2 max_d =
     (let diag_index = k2 - k1
      in if max_d \<ge> 0 \<and> int diag_index \<ge> max_d then int diag_index
         else editDist2_rows max_d s2 k2 1 s1 diag_index (map int [0..<k2 + 1]) k1)"

text \<open>
  \<^verbatim>\<open>int editDist2(const kmer s1, const int k1, const kmer s2, const int k2, const int max_d)\<close>;
  the lengths are natural numbers. When \<^verbatim>\<open>k1 > k2\<close> the source calls itself once
  with the two strings exchanged.
\<close>

definition editDist2 :: "kmer \<Rightarrow> nat \<Rightarrow> kmer \<Rightarrow> nat \<Rightarrow> int \<Rightarrow> int" where
  "editDist2 s1 k1 s2 k2 max_d =
     (if k1 > k2 then editDist2_ordered s2 k2 s1 k1 max_d
      else editDist2_ordered s1 k1 s2 k2 max_d)"


text \<open>
  Row \<open>i\<close> of the table that the loops fill: entry \<open>j\<close> is the distance between the
  last \<open>i\<close> symbols of the first string and the last \<open>j\<close> symbols of the second.
\<close>

definition lev_cell :: "kmer \<Rightarrow> kmer \<Rightarrow> nat \<Rightarrow> nat \<Rightarrow> int" where
  "lev_cell s1 s2 i j = int (lev (decode s1 i) (decode s2 j))"

definition lev_row :: "kmer \<Rightarrow> kmer \<Rightarrow> nat \<Rightarrow> nat \<Rightarrow> int list" where
  "lev_row s1 s2 k2 i = map (lev_cell s1 s2 i) [0..<k2 + 1]"

section \<open>Growing the islands (partitionByCliquesCheckByNeighbors.c)\<close>

text \<open>
  The label array \<^verbatim>\<open>int* h\<close> is a function from packed k-mers to labels:
  \<open>-3\<close> untouched, \<open>-2\<close> visited by the search, \<open>-1\<close> gray, \<open>i \<ge> 0\<close> island \<open>i\<close>.
  The array \<^verbatim>\<open>bool* visited\<close> (\<^verbatim>\<open>h_m1\<close> in \<^verbatim>\<open>main\<close>) is a function from packed
  (k-1)-mers to truth values. An \<^verbatim>\<open>ArrayList\<close> is a list, \<^verbatim>\<open>AListInsert\<close> appends.
  In a layer a (k-1)-mer carries the highest bit \<^verbatim>\<open>luMSB\<close> as a tag.
\<close>

type_synonym labels = "kmer \<Rightarrow> int"
type_synonym marks = "kmer \<Rightarrow> bool"

definition luMSB :: kmer where
  "luMSB = 0x8000000000000000"

text \<open>
  The three single edits on a packed string, as all the loops of the source compute
  them: \<^verbatim>\<open>head = (s>>((j+1)<<1))<<(j<<1); tail = ((1lu<<(j<<1))-1) & s; x = head|tail\<close> for
  the deletion at \<open>j\<close>, and likewise for the other two.
\<close>

definition deletion :: "kmer \<Rightarrow> nat \<Rightarrow> kmer" where
  "deletion s j =
     (let head = push_bit (2 * j) (drop_bit (2 * (j + 1)) s);
          tail = (push_bit (2 * j) 1 - 1) AND s
      in head OR tail)"

definition substitution :: "kmer \<Rightarrow> nat \<Rightarrow> kmer \<Rightarrow> kmer" where
  "substitution s j m =
     (let head = push_bit (2 * j) (drop_bit (2 * j) s);
          tail = (push_bit (2 * (j - 1)) 1 - 1) AND s;
          body = push_bit (2 * (j - 1)) m
      in head OR body OR tail)"

definition insertion :: "kmer \<Rightarrow> nat \<Rightarrow> kmer \<Rightarrow> kmer" where
  "insertion s j m =
     (let head = push_bit (2 * (j + 1)) (drop_bit (2 * j) s);
          tail = (push_bit (2 * j) 1 - 1) AND s;
          body = push_bit (2 * j) m
      in head OR body OR tail)"

text \<open>
  What the loop nests enumerate, in their order: \<^verbatim>\<open>for(j=0; j<k; j+=1)\<close> for the
  deletions, \<^verbatim>\<open>for(j=1; j<=k; j+=1) for(m=0; m<4; m+=1)\<close> for the substitutions,
  \<^verbatim>\<open>for(j=0; j<k; j+=1) for(m=0; m<4; m+=1)\<close> for the insertions.
\<close>

definition deletions :: "kmer \<Rightarrow> nat \<Rightarrow> kmer list" where
  "deletions s k = map (deletion s) [0..<k]"

definition substitutions :: "kmer \<Rightarrow> nat \<Rightarrow> kmer list" where
  "substitutions s k = concat (map (\<lambda>j. map (substitution s j) [0, 1, 2, 3]) [1..<k + 1])"

definition insertions :: "kmer \<Rightarrow> nat \<Rightarrow> kmer list" where
  "insertions s k = concat (map (\<lambda>j. map (insertion s j) [0, 1, 2, 3]) [0..<k])"

subsection \<open>\<^verbatim>\<open>getNextLayer\<close>\<close>

text \<open>
  The state of the loops of \<^verbatim>\<open>getNextLayer\<close>: the two arrays and \<^verbatim>\<open>new_layer\<close>.
  The body of the deletion loop tests and sets \<^verbatim>\<open>visited[x]\<close> and appends the tagged
  \<^verbatim>\<open>x|luMSB\<close>; the body of the substitution and insertion loops tests \<^verbatim>\<open>h[x] != -3\<close>,
  appends \<^verbatim>\<open>x\<close> and sets \<^verbatim>\<open>h[x] = -2\<close>.
\<close>

type_synonym layer_state = "labels \<times> marks \<times> kmer list"

definition admit_km1 :: "kmer \<Rightarrow> layer_state \<Rightarrow> layer_state" where
  "admit_km1 x = (\<lambda>(h, visited, new_layer).
     if visited x then (h, visited, new_layer)
     else (h, visited(x := True), new_layer @ [x OR luMSB]))"

definition admit_kmer :: "kmer \<Rightarrow> layer_state \<Rightarrow> layer_state" where
  "admit_kmer x = (\<lambda>(h, visited, new_layer).
     if h x \<noteq> - 3 then (h, visited, new_layer)
     else (h(x := - 2), visited, new_layer @ [x]))"

text \<open>The body of the loop over the layer, for one element \<^verbatim>\<open>s\<close>.\<close>

definition expand :: "nat \<Rightarrow> kmer \<Rightarrow> layer_state \<Rightarrow> layer_state" where
  "expand k s st =
     (if s < luMSB
      then fold admit_kmer (substitutions s k) (fold admit_km1 (deletions s k) st)
      else fold admit_kmer (insertions s k) st)"

text \<open>
  \<^verbatim>\<open>void getNextLayer(Island* id, const int k, int* h, bool* visited)\<close>. Of the island
  it reads and replaces only \<^verbatim>\<open>id->bfs_layer\<close>, which is the first argument and the
  first component of the result here. On an empty layer it returns at once.
\<close>

definition getNextLayer :: "kmer list \<Rightarrow> nat \<Rightarrow> labels \<Rightarrow> marks \<Rightarrow> kmer list \<times> labels \<times> marks" where
  "getNextLayer bfs_layer k h visited =
     (if bfs_layer = [] then (bfs_layer, h, visited)
      else (case fold (expand k) bfs_layer (h, visited, []) of
              (h', visited', new_layer) \<Rightarrow> (new_layer, h', visited')))"

subsection \<open>\<^verbatim>\<open>conflictWithNeighbors\<close>\<close>

text \<open>
  The state of the probe: the hash table \<^verbatim>\<open>visited\<close>, as a set, and \<^verbatim>\<open>next_layer\<close>.
  \<open>None\<close> is the early \<^verbatim>\<open>return\<close> of \<^verbatim>\<open>TRUE\<close> out of the loops.
\<close>

type_synonym probe_state = "kmer set \<times> kmer list"

text \<open>
  The insertion and substitution loops: a generated \<^verbatim>\<open>x\<close> with \<^verbatim>\<open>h[x] >= 0 && h[x] != c\<close>
  ends the probe, any other one is added to \<^verbatim>\<open>next_layer\<close> unless the table has it.
\<close>

fun probe_kmers :: "labels \<Rightarrow> nat \<Rightarrow> kmer list \<Rightarrow> probe_state \<Rightarrow> probe_state option" where
  "probe_kmers h c [] st = Some st"
| "probe_kmers h c (x # xs) (visited, next_layer) =
     (if h x \<ge> 0 \<and> h x \<noteq> int c then None
      else if x \<notin> visited then probe_kmers h c xs (insert x visited, next_layer @ [x])
      else probe_kmers h c xs (visited, next_layer))"

text \<open>The deletion loop: \<^verbatim>\<open>x = head|tail|luMSB\<close> is added unless the table has it.\<close>

definition probe_km1 :: "kmer \<Rightarrow> probe_state \<Rightarrow> probe_state" where
  "probe_km1 y = (\<lambda>(visited, next_layer).
     let x = y OR luMSB
     in if x \<notin> visited then (insert x visited, next_layer @ [x]) else (visited, next_layer))"

definition probe_vertex :: "labels \<Rightarrow> nat \<Rightarrow> nat \<Rightarrow> kmer \<Rightarrow> probe_state \<Rightarrow> probe_state option" where
  "probe_vertex h k c s st =
     (if s \<ge> luMSB then probe_kmers h c (insertions s k) st
      else probe_kmers h c (substitutions s k) (fold probe_km1 (deletions s k) st))"

fun probe_layer :: "labels \<Rightarrow> nat \<Rightarrow> nat \<Rightarrow> kmer list \<Rightarrow> probe_state \<Rightarrow> probe_state option" where
  "probe_layer h k c [] st = Some st"
| "probe_layer h k c (s # cur_layer) st =
     (case probe_vertex h k c s st of
        None \<Rightarrow> None
      | Some st' \<Rightarrow> probe_layer h k c cur_layer st')"

text \<open>
  The \<^verbatim>\<open>while(depth > 0)\<close> loop, for the \<open>depth\<close> layers still to be generated; after
  each layer \<^verbatim>\<open>cur_layer\<close> is cleared and exchanged with \<^verbatim>\<open>next_layer\<close>.
\<close>

fun probe_loop :: "labels \<Rightarrow> nat \<Rightarrow> nat \<Rightarrow> nat \<Rightarrow> kmer list \<Rightarrow> kmer set \<Rightarrow> bool" where
  "probe_loop h k c 0 cur_layer visited = False"
| "probe_loop h k c (Suc depth) cur_layer visited =
     (case probe_layer h k c cur_layer (visited, []) of
        None \<Rightarrow> True
      | Some (visited', next_layer) \<Rightarrow> probe_loop h k c depth next_layer visited')"

text \<open>\<^verbatim>\<open>bool conflictWithNeighbors(kmer s, int k, int depth, size_t c, int* h)\<close>.\<close>

definition conflictWithNeighbors :: "kmer \<Rightarrow> nat \<Rightarrow> int \<Rightarrow> nat \<Rightarrow> labels \<Rightarrow> bool" where
  "conflictWithNeighbors s k depth c h = probe_loop h k c (nat depth) [s] {s}"

subsection \<open>\<^verbatim>\<open>main\<close>\<close>

text \<open>
  \<^verbatim>\<open>Island\<close>: the members of the clique and the current layer of the search.
  \<^verbatim>\<open>IslandInit\<close> puts the members of the clique into the first layer.
\<close>

record Island =
  centers :: "kmer list"
  bfs_layer :: "kmer list"

definition IslandInit :: "kmer list \<Rightarrow> Island" where
  "IslandInit c = \<lparr>centers = c, bfs_layer = c\<rparr>"

type_synonym driver_state = "labels \<times> marks \<times> Island list"

text \<open>
  The seeding loop of \<^verbatim>\<open>main\<close>, for member \<^verbatim>\<open>cur\<close> of clique \<^verbatim>\<open>i\<close>: a tagged (k-1)-mer
  is marked in \<^verbatim>\<open>h_m1\<close>, a k-mer gets the label \<^verbatim>\<open>i\<close>.
\<close>

definition seed_member :: "nat \<Rightarrow> kmer \<Rightarrow> labels \<times> marks \<Rightarrow> labels \<times> marks" where
  "seed_member i cur = (\<lambda>(h, h_m1).
     if cur \<ge> luMSB then (h, h_m1((cur XOR luMSB) := True)) else (h(cur := int i), h_m1))"

definition seed_clique :: "kmer list list \<Rightarrow> nat \<Rightarrow> labels \<times> marks \<Rightarrow> labels \<times> marks" where
  "seed_clique cliques i = fold (seed_member i) (cliques ! i)"

text \<open>
  The state of \<^verbatim>\<open>main\<close> before the first round. The cliques are what
  \<^verbatim>\<open>readCliquesFromFile\<close>, which is not part of the sources at hand, has returned.
\<close>

definition seeded :: "kmer list list \<Rightarrow> driver_state" where
  "seeded cliques =
     (case fold (seed_clique cliques) [0..<length cliques] (\<lambda>_. - 3, \<lambda>_. False) of
        (h, h_m1) \<Rightarrow> (h, h_m1, map IslandInit cliques))"

text \<open>
  The body of the loop over the new layer: a (k-1)-mer and a k-mer with \<^verbatim>\<open>h[s] > -2\<close>
  are skipped; any other \<^verbatim>\<open>s\<close> gets the label of the island or \<open>-1\<close>.
\<close>

definition label_vertex :: "nat \<Rightarrow> int \<Rightarrow> nat \<Rightarrow> kmer \<Rightarrow> labels \<Rightarrow> labels" where
  "label_vertex k p i s h =
     (if s \<ge> luMSB \<or> h s > - 2 then h
      else if \<not> conflictWithNeighbors s k (p - 1) i h then h(s := int i)
      else h(s := - 1))"

text \<open>The body of the loop over the islands, for island \<^verbatim>\<open>i\<close>.\<close>

definition island_round :: "nat \<Rightarrow> int \<Rightarrow> nat \<Rightarrow> driver_state \<Rightarrow> driver_state" where
  "island_round k p i = (\<lambda>(h, h_m1, islands).
     case getNextLayer (bfs_layer (islands ! i)) k h h_m1 of
       (layer, h', h_m1') \<Rightarrow>
         (fold (label_vertex k p i) layer h', h_m1',
          islands[i := (islands ! i)\<lparr>bfs_layer := layer\<rparr>]))"

text \<open>One radius: all the islands in their order.\<close>

definition radius_round :: "nat \<Rightarrow> int \<Rightarrow> driver_state \<Rightarrow> driver_state" where
  "radius_round k p st = (case st of (h, h_m1, islands) \<Rightarrow>
     fold (island_round k p) [0..<length islands] st)"

text \<open>The loop \<^verbatim>\<open>for(radius=1; radius<=threshold; radius+=1)\<close>, for the rounds still to run.\<close>

fun radius_loop :: "nat \<Rightarrow> int \<Rightarrow> nat \<Rightarrow> driver_state \<Rightarrow> driver_state" where
  "radius_loop k p 0 st = st"
| "radius_loop k p (Suc n) st = radius_loop k p n (radius_round k p st)"

text \<open>
  \<^verbatim>\<open>main\<close> up to the state after the last round, with \<^verbatim>\<open>threshold = q>>1\<close>; the output
  file is written from the label array of this state.
\<close>

definition partition_cliques :: "nat \<Rightarrow> int \<Rightarrow> int \<Rightarrow> kmer list list \<Rightarrow> driver_state" where
  "partition_cliques k p q cliques = radius_loop k p (nat (q div 2)) (seeded cliques)"

definition final_labels :: "driver_state \<Rightarrow> labels" where
  "final_labels st = fst st"

section \<open>The variant that checks against the centers (partitionByLayersCheckByCenters)\<close>













section \<open>Relations between the states of a run\<close>

text \<open>
  What one call of \<^verbatim>\<open>getNextLayer\<close> may do to its state: a label changes only from
  \<open>-3\<close> to \<open>-2\<close>, a mark is only set, and the layer gains exactly the k-mers whose label
  has changed and the tagged (k-1)-mers whose mark has been set.
\<close>

definition grows :: "layer_state \<Rightarrow> layer_state \<Rightarrow> bool" where
  "grows st st' = (case st of (h, v, nl) \<Rightarrow> case st' of (h', v', nl') \<Rightarrow>
     (\<forall>x. h' x = h x \<or> (h x = - 3 \<and> h' x = - 2))
   \<and> (\<forall>x. v x \<longrightarrow> v' x)
   \<and> set nl' = set nl \<union> {x. h x = - 3 \<and> h' x = - 2} \<union> {x OR luMSB |x. \<not> v x \<and> v' x})"

text \<open>A final label: gray or the index of an island.\<close>

definition final :: "int \<Rightarrow> bool" where
  "final l = (l \<ge> - 1)"






section \<open>The greedy independent set (NoRandPairwise.cpp)\<close>


















section \<open>The radius of an island\<close>







section \<open>The sensitivity of the labeling\<close>

subsection \<open>Edit scripts\<close>







subsection \<open>The probe\<close>




subsection \<open>The state of \<^verbatim>\<open>main\<close>\<close>



section \<open>The codec is a bijection\<close>

lemma base_cases:
  "base 0 = CHR ''A''" "base 1 = CHR ''C''" "base 2 = CHR ''G''" "base 3 = CHR ''T''"
  by (simp_all add: base_def)

lemma and3_cases:
  fixes w :: kmer
  shows "w AND 3 = 0 \<or> w AND 3 = 1 \<or> w AND 3 = 2 \<or> w AND 3 = 3"
proof -
  have "w AND 3 = take_bit 2 w"
    by (simp add: take_bit_eq_mask mask_eq_exp_minus_1)
  moreover have "unat (take_bit 2 w) < 4"
    using unsigned_take_bit_eq [of 2 w, where ?'a = nat] by (simp add: take_bit_eq_mod)
  ultimately have "unat (w AND 3) < 4" by simp
  then have "unat (w AND 3) \<in> {0, 1, 2, 3}" by auto
  then show ?thesis
    by (auto simp: word_unat_eq_iff)
qed

lemma sym_drop2: "sym (drop_bit 2 s) i = sym s (Suc i)"
  by (simp add: sym_def drop_bit_drop_bit add.commute)

lemma sym_0: "sym s 0 = s AND 3" by (simp add: sym_def)

lemma decode_loop_eq:
  "i \<le> length str \<Longrightarrow>
   decode_loop str enc i = map (\<lambda>j. base (sym enc (i - 1 - j))) [0..<i] @ drop i str"
proof (induction i arbitrary: str enc)
  case 0
  then show ?case by simp
next
  case (Suc i)
  have len: "i < length str" using Suc.prems by simp
  have d: "drop i (str[i := base (enc AND 3)]) = base (enc AND 3) # drop (Suc i) str"
    using len by (simp add: drop_update_cancel Cons_nth_drop_Suc [symmetric] upd_conv_take_nth_drop)
  show ?case
    using Suc.IH [of "str[i := base (enc AND 3)]" "drop_bit 2 enc"] len
    by (simp add: d sym_0 sym_drop2 Suc_diff_Suc)
qed

lemma decode_eq: "decode enc k = map (\<lambda>j. base (sym enc (k - 1 - j))) [0..<k]"
  by (simp add: decode_def decode_loop_eq)

lemma decode_0: "decode enc 0 = []" by (simp add: decode_eq)

lemma decode_Suc: "decode enc (Suc k) = base (sym enc k) # decode enc k"
proof -
  have "[0..<Suc k] = 0 # map Suc [0..<k]"
    by (simp add: upt_conv_Cons map_Suc_upt del: upt_Suc)
  then show ?thesis
    by (simp add: decode_eq comp_def del: upt_Suc)
qed

lemma length_decode: "length (decode enc k) = k"
  by (simp add: decode_eq)

lemma sym_cases: "sym s i = 0 \<or> sym s i = 1 \<or> sym s i = 2 \<or> sym s i = 3"
  unfolding sym_def by (rule and3_cases)

lemma base_code_base: "base_code (base (sym s i)) x = sym s i"
  using sym_cases [of s i] by (auto simp: base_cases base_code_def)

lemma and3_take_bit: "(w::kmer) AND 3 = take_bit 2 w"
  by (simp add: take_bit_eq_mask mask_eq_exp_minus_1)

lemma sym_take_bit: "sym s i = take_bit 2 (drop_bit (2 * i) s)"
  by (simp add: sym_def and3_take_bit)

lemma take_bit_Suc2:
  fixes n :: kmer
  shows "take_bit (2 * Suc k) n = push_bit (2 * k) (sym n k) OR take_bit (2 * k) n"
  unfolding sym_take_bit
  by (rule bit_word_eqI) (auto simp: bit_simps)

lemma encode_loop_decode:
  "encode_loop enc x (decode n k @ rest) k = Some (push_bit (2 * k) enc OR take_bit (2 * k) n)"
proof (induction k arbitrary: enc x)
  case 0
  then show ?case by (simp add: decode_0)
next
  case (Suc k)
  have "push_bit (2 * k) (push_bit 2 enc OR sym n k) OR take_bit (2 * k) n
        = push_bit (2 * Suc k) enc OR take_bit (2 * Suc k) n"
    unfolding take_bit_Suc2 push_bit_or push_bit_push_bit
    by (simp add: ac_simps)
  then show ?case
    by (simp add: decode_Suc base_code_base Suc.IH del: mult_Suc_right push_bit_or)
qed

lemma decode_cong: "(\<And>j. j < k \<Longrightarrow> sym a j = sym b j) \<Longrightarrow> decode a k = decode b k"
  by (simp add: decode_eq)

lemma sym_glue_low:
  "j < k \<Longrightarrow> sym (push_bit (2 * k) v OR take_bit (2 * k) n) j = sym n j"
  unfolding sym_take_bit
  by (rule bit_word_eqI) (auto simp: bit_simps)

lemma sym_glue_high:
  "k < 32 \<Longrightarrow> sym (push_bit (2 * k) (v AND 3) OR take_bit (2 * k) n) k = v AND 3"
  unfolding sym_take_bit and3_take_bit
  by (rule bit_word_eqI) (auto simp: bit_simps)

lemma dna_decode:
  "dna x \<Longrightarrow> length x \<le> 32 \<Longrightarrow> \<exists>n. decode n (length x) = x"
proof (induction x)
  case Nil
  then show ?case by (simp add: decode_0)
next
  case (Cons c xs)
  let ?k = "length xs"
  from Cons obtain n where n: "decode n ?k = xs"
    by (auto simp: dna_def)
  from Cons.prems have "c = base (0 AND 3) \<or> c = base (1 AND 3) \<or> c = base (2 AND 3) \<or> c = base (3 AND 3)"
    by (auto simp: dna_def base_cases)
  then obtain v :: kmer where v: "base (v AND 3) = c"
    by metis
  let ?m = "push_bit (2 * ?k) (v AND 3) OR take_bit (2 * ?k) n"
  have k: "?k < 32" using Cons.prems by simp
  have "decode ?m ?k = decode n ?k"
    by (rule decode_cong) (rule sym_glue_low)
  then have "decode ?m (Suc ?k) = c # xs"
    by (simp add: decode_Suc sym_glue_high [OF k] v n del: push_bit_and)
  then show ?case by auto
qed

lemma take_bit_decode: "decode (take_bit (2 * k) n) k = decode n k"
proof (rule decode_cong)
  fix j assume "j < k"
  then show "sym (take_bit (2 * k) n) j = sym n j"
    unfolding sym_take_bit by - (rule bit_word_eqI, auto simp: bit_simps)
qed

lemma take_bit_id_kmer:
  fixes n :: kmer
  shows "unat n < 4 ^ ell \<Longrightarrow> take_bit (2 * ell) n = n"
proof -
  assume "unat n < 4 ^ ell"
  then have "unat n < 2 ^ (2 * ell)" by (simp add: power_mult)
  then have "unat (take_bit (2 * ell) n) = unat n"
    by (simp add: unsigned_take_bit_eq take_bit_nat_eq_self)
  then show ?thesis
    by (simp add: word_unat_eq_iff)
qed

text \<open>
  Claim C7 (codec round trip). For every length \<open>ell \<le> 32\<close>: encoding a string of
  length \<open>ell\<close> over the letters A, C, G, T and decoding the result gives the string
  back, and decoding a packed integer below \<open>4 ^ ell\<close> and encoding the result gives
  the integer back. Neither direction depends on the indeterminate first content \<open>x0\<close>
  of the local \<^verbatim>\<open>x\<close> of \<^verbatim>\<open>encode\<close>.
\<close>

theorem codec_round_trip:
  assumes "ell \<le> 32"
  shows "(\<forall>x. dna x \<and> length x = ell \<longrightarrow>
            (\<exists>e. encode x0 x ell = Some e \<and> decode e ell = x))
       \<and> (\<forall>n. unat n < 4 ^ ell \<longrightarrow> encode x0 (decode n ell) ell = Some n)"
proof (intro conjI allI impI)
  fix x assume x: "dna x \<and> length x = ell"
  with assms obtain n where n: "decode n ell = x"
    using dna_decode [of x] by auto
  have "encode x0 x ell = Some (take_bit (2 * ell) n)"
    using encode_loop_decode [of 0 x0 n ell "[]"] by (simp add: encode_def n)
  then show "\<exists>e. encode x0 x ell = Some e \<and> decode e ell = x"
    by (simp add: take_bit_decode n)
next
  fix n :: kmer assume "unat n < 4 ^ ell"
  then have "take_bit (2 * ell) n = n" by (rule take_bit_id_kmer)
  then show "encode x0 (decode n ell) ell = Some n"
    using encode_loop_decode [of 0 x0 n ell "[]"] by (simp add: encode_def)
qed

theorem codec_round_trip_witness:
  "(3::nat) \<le> 32 \<and> dna ''GAT'' \<and> length ''GAT'' = 3
   \<and> (\<exists>e. encode 0 ''GAT'' 3 = Some e \<and> decode e 3 = ''GAT'')
   \<and> unat (35 :: kmer) < 4 ^ 3 \<and> encode 0 (decode 35 3) 3 = Some 35"
  using codec_round_trip [of 3 0]
  by (simp add: dna_def)

section \<open>The reader of the centers does not validate\<close>








section \<open>The oracle computes the Levenshtein distance\<close>

lemma lev_Nil2 [simp]: "lev xs [] = length xs"
  by (cases xs) auto

lemma lev_sym: "lev xs ys = lev ys xs"
  by (induction xs ys rule: lev.induct) (auto simp: min.commute)

lemma lev_Cons1_le: "lev (x # xs) ys \<le> lev xs ys + 1"
  by (cases ys) auto


lemma lev_le_Cons2: "lev xs ys \<le> lev xs (y # ys) + 1"
proof (induction xs arbitrary: ys y)
  case Nil
  then show ?case by simp
next
  case (Cons x xs)
  have a: "lev (x # xs) ys \<le> lev xs ys + 1" by (rule lev_Cons1_le)
  have b: "lev xs ys \<le> lev xs (y # ys) + 1" by (rule Cons.IH)
  show ?case using a b by (simp add: min_def)
qed

lemma lev_le_Cons1: "lev xs ys \<le> lev (x # xs) ys + 1"
  using lev_le_Cons2 [of ys xs x] by (simp add: lev_sym)

lemma lev_diag: "lev xs ys \<le> lev (x # xs) (y # ys)"
  using lev_le_Cons1 [of xs ys x] lev_le_Cons2 [of xs ys y]
  by (simp add: min_def) 

lemma base_inj_sym: "base (sym a i) = base (sym b j) \<longleftrightarrow> sym a i = sym b j"
  using sym_cases [of a i] sym_cases [of b j] by (auto simp: base_cases)

lemma lev_cell_0: "lev_cell s1 s2 0 j = int j"
  by (simp add: lev_cell_def decode_0 length_decode)

lemma lev_cell_0': "lev_cell s1 s2 i 0 = int i"
  by (simp add: lev_cell_def decode_0 length_decode)

lemma lev_cell_Suc:
  "lev_cell s1 s2 (Suc i) (Suc j) =
     min (min (lev_cell s1 s2 i (Suc j) + 1) (lev_cell s1 s2 (Suc i) j + 1))
         (lev_cell s1 s2 i j + (if sym s1 i = sym s2 j then 0 else 1))"
  by (simp add: lev_cell_def decode_Suc base_inj_sym min_def)

lemma lev_cell_diag: "lev_cell s1 s2 i j \<le> lev_cell s1 s2 (i + m) (j + m)"
proof (induction m)
  case 0
  then show ?case by simp
next
  case (Suc m)
  have "lev_cell s1 s2 (i + m) (j + m) \<le> lev_cell s1 s2 (Suc (i + m)) (Suc (j + m))"
    unfolding lev_cell_def decode_Suc using lev_diag by (simp del: lev.simps)
  with Suc show ?case by simp
qed

lemma cols_correct:
  assumes "j + n = k2 + 1" "1 \<le> j" "length row = k2 + 1"
    and "\<And>m. m < j \<Longrightarrow> row ! m = lev_cell s1 s2 (Suc i) m"
    and "\<And>m. j \<le> m \<Longrightarrow> m \<le> k2 \<Longrightarrow> row ! m = lev_cell s1 s2 i m"
    and "diag = lev_cell s1 s2 i (j - 1)"
    and "s1c AND 3 = sym s1 i" "s2c = drop_bit (2 * (j - 1)) s2"
  shows "editDist2_cols s1c s2c j diag row n = lev_row s1 s2 k2 (Suc i)"
  using assms
proof (induction n arbitrary: j s2c diag row)
  case 0
  then show ?case
    by (auto simp: lev_row_def list_eq_iff_nth_eq nth_append simp del: upt_Suc)
next
  case (Suc n)
  obtain j' where j': "j = Suc j'" using Suc.prems(2) by (cases j) auto
  have jk: "j \<le> k2" using Suc.prems(1) by simp
  have s2c: "s2c AND 3 = sym s2 j'"
    using Suc.prems(8) by (simp add: sym_def j')
  let ?cur = "lev_cell s1 s2 (Suc i) j"
  have cur: "(let cur = diag + (if s1c AND 3 = s2c AND 3 then 0 else 1);
          tmp = row ! j + 1;
          cur = (if cur > tmp then tmp else cur);
          tmp = row ! (j - 1) + 1;
          cur = (if cur > tmp then tmp else cur) in cur) = ?cur"
    using Suc.prems(4) [of j'] Suc.prems(5) [of j] jk
    by (simp add: Let_def j' lev_cell_Suc Suc.prems(6,7) s2c min_def)
  have "editDist2_cols s1c s2c j diag row (Suc n)
        = editDist2_cols s1c (drop_bit 2 s2c) (j + 1) (row ! j) (row[j := ?cur]) n"
    using cur by (simp add: Let_def)
  also have "\<dots> = lev_row s1 s2 k2 (Suc i)"
  proof (rule Suc.IH)
    show "j + 1 + n = k2 + 1" using Suc.prems(1) by simp
    show "1 \<le> j + 1" by simp
    show "length (row[j := ?cur]) = k2 + 1" using Suc.prems(3) by simp
    show "(row[j := ?cur]) ! m = lev_cell s1 s2 (Suc i) m" if "m < j + 1" for m
      using that Suc.prems(3,4) jk by (cases "m = j") auto
    show "(row[j := ?cur]) ! m = lev_cell s1 s2 i m" if "j + 1 \<le> m" "m \<le> k2" for m
      using that Suc.prems(5) by simp
    show "row ! j = lev_cell s1 s2 i (j + 1 - 1)"
      using Suc.prems(5) [of j] jk by simp
    show "s1c AND 3 = sym s1 i" by (rule Suc.prems(7))
    show "drop_bit 2 s2c = drop_bit (2 * (j + 1 - 1)) s2"
      using Suc.prems(8) by (simp add: j' add.commute)
  qed
  finally show ?case .
qed

lemma row_step:
  "editDist2_cols (drop_bit (2 * i) s1) s2 1 ((lev_row s1 s2 k2 i) ! 0)
      ((lev_row s1 s2 k2 i)[0 := int (Suc i)]) k2 = lev_row s1 s2 k2 (Suc i)"
proof (rule cols_correct)
  show "1 + k2 = k2 + 1" by simp
  show "(1::nat) \<le> 1" by simp
  show "length ((lev_row s1 s2 k2 i)[0 := int (Suc i)]) = k2 + 1"
    by (simp add: lev_row_def)
  show "(lev_row s1 s2 k2 i)[0 := int (Suc i)] ! m = lev_cell s1 s2 (Suc i) m" if "m < 1" for m
    using that by (simp add: lev_row_def lev_cell_0' del: upt_Suc)
  show "(lev_row s1 s2 k2 i)[0 := int (Suc i)] ! m = lev_cell s1 s2 i m" if "1 \<le> m" "m \<le> k2" for m
    using that by (simp add: lev_row_def del: upt_Suc)
  show "lev_row s1 s2 k2 i ! 0 = lev_cell s1 s2 i (1 - 1)"
    by (simp add: lev_row_def del: upt_Suc)
  show "drop_bit (2 * i) s1 AND 3 = sym s1 i" by (simp add: sym_def)
  show "s2 = drop_bit (2 * (1 - 1)) s2" by simp
qed

lemma rows_spec:
  assumes "d + n = k2"
  shows "editDist2_rows max_d s2 k2 (Suc i) (drop_bit (2 * i) s1) d (lev_row s1 s2 k2 i) n
           = lev_cell s1 s2 (i + n) k2
       \<or> (0 \<le> max_d
          \<and> max_d \<le> editDist2_rows max_d s2 k2 (Suc i) (drop_bit (2 * i) s1) d (lev_row s1 s2 k2 i) n
          \<and> editDist2_rows max_d s2 k2 (Suc i) (drop_bit (2 * i) s1) d (lev_row s1 s2 k2 i) n
              \<le> lev_cell s1 s2 (i + n) k2)"
  using assms
proof (induction n arbitrary: i d)
  case 0
  then show ?case by (simp add: lev_row_def del: upt_Suc)
next
  case (Suc n)
  let ?row = "lev_row s1 s2 k2 (Suc i)"
  have d: "Suc d \<le> k2" using Suc.prems by simp
  have v: "?row ! (Suc d) = lev_cell s1 s2 (Suc i) (Suc d)"
    using d by (simp add: lev_row_def del: upt_Suc)
  have le: "lev_cell s1 s2 (Suc i) (Suc d) \<le> lev_cell s1 s2 (i + Suc n) k2"
    using lev_cell_diag [of s1 s2 "Suc i" "Suc d" n] Suc.prems by simp
  have db: "drop_bit 2 (drop_bit (2 * i) s1) = drop_bit (2 * Suc i) s1"
    by (simp add: add.commute)
  have "editDist2_rows max_d s2 k2 (Suc i) (drop_bit (2 * i) s1) d (lev_row s1 s2 k2 i) (Suc n)
      = (if max_d \<ge> 0 \<and> ?row ! (d + 1) \<ge> max_d then ?row ! (d + 1)
         else editDist2_rows max_d s2 k2 (Suc i + 1) (drop_bit (2 * Suc i) s1) (d + 1) ?row n)"
    by (simp only: editDist2_rows.simps Let_def row_step db)
  then have unf: "editDist2_rows max_d s2 k2 (Suc i) (drop_bit (2 * i) s1) d (lev_row s1 s2 k2 i) (Suc n)
      = (if max_d \<ge> 0 \<and> ?row ! (Suc d) \<ge> max_d then ?row ! (Suc d)
         else editDist2_rows max_d s2 k2 (Suc (Suc i)) (drop_bit (2 * Suc i) s1) (Suc d) ?row n)"
    by simp
  show ?case
  proof (cases "max_d \<ge> 0 \<and> ?row ! (Suc d) \<ge> max_d")
    case True
    then have "editDist2_rows max_d s2 k2 (Suc i) (drop_bit (2 * i) s1) d (lev_row s1 s2 k2 i) (Suc n)
      = lev_cell s1 s2 (Suc i) (Suc d)"
      unfolding unf v by (rule if_P)
    then show ?thesis using True v le by simp
  next
    case False
    then have "editDist2_rows max_d s2 k2 (Suc i) (drop_bit (2 * i) s1) d (lev_row s1 s2 k2 i) (Suc n)
      = editDist2_rows max_d s2 k2 (Suc (Suc i)) (drop_bit (2 * Suc i) s1) (Suc d) ?row n"
      unfolding unf by (rule if_not_P)
    then show ?thesis using Suc.IH [of "Suc d" "Suc i"] Suc.prems by simp
  qed
qed

lemma ordered_spec:
  assumes "k1 \<le> k2"
  shows "editDist2_ordered s1 k1 s2 k2 max_d = lev_cell s1 s2 k1 k2
       \<or> (0 \<le> max_d \<and> max_d \<le> editDist2_ordered s1 k1 s2 k2 max_d
          \<and> editDist2_ordered s1 k1 s2 k2 max_d \<le> lev_cell s1 s2 k1 k2)"
proof (cases "max_d \<ge> 0 \<and> int (k2 - k1) \<ge> max_d")
  case True
  have "lev_cell s1 s2 0 (k2 - k1) \<le> lev_cell s1 s2 (0 + k1) (k2 - k1 + k1)"
    by (rule lev_cell_diag)
  then have "int (k2 - k1) \<le> lev_cell s1 s2 k1 k2"
    using assms by (simp add: lev_cell_0)
  then show ?thesis using True by (simp add: editDist2_ordered_def Let_def)
next
  case False
  have r0: "map int [0..<k2 + 1] = lev_row s1 s2 k2 0"
    by (simp add: lev_row_def lev_cell_0 del: upt_Suc)
  have "editDist2_ordered s1 k1 s2 k2 max_d
        = editDist2_rows max_d s2 k2 (Suc 0) (drop_bit (2 * 0) s1) (k2 - k1) (lev_row s1 s2 k2 0) k1"
    unfolding editDist2_ordered_def Let_def r0 using False by (simp only: if_not_P) simp
  then show ?thesis
    using rows_spec [of "k2 - k1" k1 k2 max_d s2 0 s1] assms by simp
qed

lemma lev_cell_sym: "lev_cell s2 s1 k2 k1 = lev_cell s1 s2 k1 k2"
  by (simp add: lev_cell_def lev_sym)

lemma editDist2_spec:
  "editDist2 s1 k1 s2 k2 max_d = lev_cell s1 s2 k1 k2
       \<or> (0 \<le> max_d \<and> max_d \<le> editDist2 s1 k1 s2 k2 max_d
          \<and> editDist2 s1 k1 s2 k2 max_d \<le> lev_cell s1 s2 k1 k2)"
proof (cases "k1 > k2")
  case True
  then show ?thesis
    using ordered_spec [of k2 k1 s2 s1 max_d] by (simp add: editDist2_def lev_cell_sym)
next
  case False
  then show ?thesis
    using ordered_spec [of k1 k2 s1 s2 max_d] by (simp add: editDist2_def)
qed

text \<open>
  Claim C5 (oracle exactness). With \<^verbatim>\<open>max_d = -1\<close> the oracle returns the Levenshtein
  distance, as the reference recursion \<open>lev\<close> defines it, of the two decoded strings,
  for all packed strings and all lengths (so for the lengths up to 32 of the claim).
\<close>

theorem editDist2_exact:
  "editDist2 s1 k1 s2 k2 (- 1) = int (lev (decode s1 k1) (decode s2 k2))"
  using editDist2_spec [of s1 k1 s2 k2 "- 1"] by (simp add: lev_cell_def)

theorem editDist2_exact_witness:
  "editDist2 35 3 5 2 (- 1) = int (lev (decode 35 3) (decode 5 2))
   \<and> lev (decode 35 3) (decode 5 2) = 3"
proof -
  have "lev (decode 35 3) (decode 5 2) = 3" by code_simp
  then show ?thesis using editDist2_exact [of 35 3 5 2] by simp
qed

text \<open>
  Claim C6 (early exit). For every \<^verbatim>\<open>max_d >= 0\<close> the oracle returns a value that is at
  least \<^verbatim>\<open>max_d\<close> exactly when the Levenshtein distance of the decoded strings is at
  least \<^verbatim>\<open>max_d\<close>, and it returns the distance itself whenever the distance is below
  \<^verbatim>\<open>max_d\<close>.
\<close>

theorem editDist2_early_exit:
  "0 \<le> max_d \<Longrightarrow>
     (max_d \<le> editDist2 s1 k1 s2 k2 max_d \<longleftrightarrow> max_d \<le> int (lev (decode s1 k1) (decode s2 k2)))
   \<and> (int (lev (decode s1 k1) (decode s2 k2)) < max_d \<longrightarrow>
        editDist2 s1 k1 s2 k2 max_d = int (lev (decode s1 k1) (decode s2 k2)))"
  using editDist2_spec [of s1 k1 s2 k2 max_d] by (auto simp: lev_cell_def)

theorem editDist2_early_exit_witness:
  "(0::int) \<le> 5 \<and> int (lev (decode 35 3) (decode 5 2)) < 5
   \<and> editDist2 35 3 5 2 5 = int (lev (decode 35 3) (decode 5 2))
   \<and> \<not> 5 \<le> editDist2 35 3 5 2 5"
proof -
  have "lev (decode 35 3) (decode 5 2) = 3" by code_simp
  then show ?thesis using editDist2_early_exit [of 5 35 3 5 2] by simp
qed

section \<open>The labels move forward only\<close>

lemma grows_refl: "grows st st"
  by (cases st) (auto simp: grows_def)

lemma grows_trans: "grows a b \<Longrightarrow> grows b c \<Longrightarrow> grows a c"
proof -
  assume ab: "grows a b" and bc: "grows b c"
  obtain h v nl where a: "a = (h, v, nl)" by (cases a)
  obtain h' v' nl' where b: "b = (h', v', nl')" by (cases b)
  obtain h'' v'' nl'' where c: "c = (h'', v'', nl'')" by (cases c)
  have h1: "\<And>x. h' x = h x \<or> (h x = - 3 \<and> h' x = - 2)"
    and v1: "\<And>x. v x \<Longrightarrow> v' x"
    and n1: "set nl' = set nl \<union> {x. h x = - 3 \<and> h' x = - 2} \<union> {x OR luMSB |x. \<not> v x \<and> v' x}"
    using ab by (auto simp: grows_def a b)
  have h2: "\<And>x. h'' x = h' x \<or> (h' x = - 3 \<and> h'' x = - 2)"
    and v2: "\<And>x. v' x \<Longrightarrow> v'' x"
    and n2: "set nl'' = set nl' \<union> {x. h' x = - 3 \<and> h'' x = - 2} \<union> {x OR luMSB |x. \<not> v' x \<and> v'' x}"
    using bc by (auto simp: grows_def b c)
  have hh: "\<And>x. h'' x = h x \<or> (h x = - 3 \<and> h'' x = - 2)"
    using h1 h2 by (metis)
  have s1: "{x. h x = - 3 \<and> h'' x = - 2} = {x. h x = - 3 \<and> h' x = - 2} \<union> {x. h' x = - 3 \<and> h'' x = - 2}"
  proof (rule set_eqI)
    fix x
    show "x \<in> {x. h x = - 3 \<and> h'' x = - 2} \<longleftrightarrow> x \<in> {x. h x = - 3 \<and> h' x = - 2} \<union> {x. h' x = - 3 \<and> h'' x = - 2}"
      using h1 [of x] h2 [of x] by auto
  qed
  have s2: "{x OR luMSB |x. \<not> v x \<and> v'' x} = {x OR luMSB |x. \<not> v x \<and> v' x} \<union> {x OR luMSB |x. \<not> v' x \<and> v'' x}"
    using v1 v2 by blast
  show ?thesis
    unfolding grows_def a c using hh v1 v2 n1 n2 s1 s2 by auto
qed

lemma grows_admit_kmer: "grows st (admit_kmer x st)"
  by (cases st) (auto simp: grows_def admit_kmer_def)

lemma grows_admit_km1: "grows st (admit_km1 x st)"
  by (cases st) (auto simp: grows_def admit_km1_def)

lemma grows_fold:
  "(\<And>x st. grows st (f x st)) \<Longrightarrow> grows st (fold f xs st)"
proof (induction xs arbitrary: st)
  case Nil
  then show ?case by (simp add: grows_refl)
next
  case (Cons x xs)
  then show ?case using grows_trans [of st "f x st" "fold f xs (f x st)"] by simp
qed

lemma grows_expand: "grows st (expand k s st)"
  unfolding expand_def
  by (auto intro!: grows_fold grows_admit_kmer grows_admit_km1 intro: grows_trans)

lemma getNextLayer_grows:
  assumes "getNextLayer layer0 k h v = (layer, h1, v1)"
  shows "(\<forall>x. h1 x = h x \<or> (h x = - 3 \<and> h1 x = - 2))
       \<and> (\<forall>x. v x \<longrightarrow> v1 x)
       \<and> set layer = {x. h x = - 3 \<and> h1 x = - 2} \<union> {x OR luMSB |x. \<not> v x \<and> v1 x}"
proof (cases "layer0 = []")
  case True
  then show ?thesis using assms by (auto simp: getNextLayer_def)
next
  case False
  have g: "grows (h, v, []) (fold (expand k) layer0 (h, v, []))"
    by (rule grows_fold) (rule grows_expand)
  from False assms have "fold (expand k) layer0 (h, v, []) = (h1, v1, layer)"
    by (auto simp: getNextLayer_def split: prod.splits)
  with g show ?thesis by (simp add: grows_def)
qed

lemma luMSB_le_or: "luMSB \<le> x OR luMSB"
  by (simp add: or.commute le_word_or2)

lemma not_tagged_less: "\<not> x OR luMSB < luMSB"
  using luMSB_le_or [of x] by (simp add: not_less)

lemma layer_kmers_marked:
  assumes "getNextLayer layer0 k h v = (layer, h1, v1)" "x \<in> set layer" "x < luMSB"
  shows "h x = - 3 \<and> h1 x = - 2"
proof -
  from getNextLayer_grows [OF assms(1)] assms(2)
  have "x \<in> {x. h x = - 3 \<and> h1 x = - 2} \<union> {x OR luMSB |x. \<not> v x \<and> v1 x}" by simp
  moreover have "x \<notin> {x OR luMSB |x. \<not> v x \<and> v1 x}"
    using assms(3) not_tagged_less by blast
  ultimately show ?thesis by blast
qed

lemma label_vertex_point:
  "label_vertex k p i s h x = h x
   \<or> (x = s \<and> s < luMSB \<and> h s \<le> - 2
      \<and> (label_vertex k p i s h x = - 1 \<or> label_vertex k p i s h x = int i))"
  by (auto simp: label_vertex_def)


lemma fold_label_changes:
  "fold (label_vertex k p i) layer h1 x = h1 x
   \<or> (x \<in> set layer \<and> x < luMSB \<and> h1 x \<le> - 2
      \<and> (fold (label_vertex k p i) layer h1 x = - 1 \<or> fold (label_vertex k p i) layer h1 x = int i))"
proof (induction layer arbitrary: h1)
  case Nil
  then show ?case by simp
next
  case (Cons s layer)
  define h' where "h' = label_vertex k p i s h1"
  have f: "fold (label_vertex k p i) (s # layer) h1 = fold (label_vertex k p i) layer h'"
    by (simp add: h'_def)
  have p: "h' x = h1 x \<or> (x = s \<and> s < luMSB \<and> h1 s \<le> - 2 \<and> (h' x = - 1 \<or> h' x = int i))"
    unfolding h'_def by (rule label_vertex_point)
  from Cons.IH [of h'] p show ?case unfolding f by auto
qed


lemma island_round_unfold:
  assumes "getNextLayer (bfs_layer (islands ! i)) k h v = (layer, h1, v1)"
  shows "island_round k p i (h, v, islands)
       = (fold (label_vertex k p i) layer h1, v1, islands[i := (islands ! i)\<lparr>bfs_layer := layer\<rparr>])"
  using assms by (simp add: island_round_def)

lemma island_round_final:
  assumes "final (h x)"
  shows "fst (island_round k p i (h, v, islands)) x = h x"
proof -
  obtain layer h1 v1 where g: "getNextLayer (bfs_layer (islands ! i)) k h v = (layer, h1, v1)"
    by (cases "getNextLayer (bfs_layer (islands ! i)) k h v")
  have "h1 x = h x" using getNextLayer_grows [OF g] assms by (auto simp: final_def)
  moreover have "fold (label_vertex k p i) layer h1 x = h1 x"
    using fold_label_changes [of k p i layer h1 x] assms calculation by (auto simp: final_def)
  ultimately show ?thesis by (simp add: island_round_unfold [OF g])
qed

lemma fold_island_round_final:
  "final (fst st x) \<Longrightarrow> fst (fold (island_round k p) is st) x = fst st x"
proof (induction "is" arbitrary: st)
  case Nil
  then show ?case by simp
next
  case (Cons i "is")
  obtain h v islands where st: "st = (h, v, islands)" by (cases st)
  have a: "fst (island_round k p i st) x = fst st x"
    using island_round_final [of h x k p i v islands] Cons.prems by (simp add: st)
  then show ?case using Cons by simp
qed

lemma radius_round_final:
  "final (fst st x) \<Longrightarrow> fst (radius_round k p st) x = fst st x"
  by (cases st) (simp add: radius_round_def fold_island_round_final)

lemma radius_loop_final:
  "final (fst st x) \<Longrightarrow> fst (radius_loop k p n st) x = fst st x"
  by (induction n arbitrary: st) (simp_all add: radius_round_final)

text \<open>
  Claim C3, as the source has it, for the rounds of the search. One step of an island
  is \<^verbatim>\<open>getNextLayer\<close> followed by the labeling loop over the new layer. The first
  changes a label only from \<open>-3\<close> (unassigned) to \<open>-2\<close> (visited), and a k-mer is in
  the new layer only if its label was \<open>-3\<close> and is \<open>-2\<close> now. The second changes a
  label only from \<open>-2\<close> to \<open>-1\<close> (gray) or to the index of the island. A label that
  is final (gray or an index) in some state is the same after any number of rounds.
  So in the rounds every label moves along \<open>-3\<close>, \<open>-2\<close>, final, each step at
  most once.
\<close>

theorem label_state_machine:
  assumes "getNextLayer layer0 k h v = (layer, h1, v1)"
  shows "(\<forall>x. h1 x = h x \<or> (h x = - 3 \<and> h1 x = - 2))
       \<and> (\<forall>x \<in> set layer. x < luMSB \<longrightarrow> h x = - 3 \<and> h1 x = - 2)
       \<and> (\<forall>x. fold (label_vertex k p i) layer h1 x = h1 x
              \<or> (h1 x = - 2 \<and> x \<in> set layer
                  \<and> (fold (label_vertex k p i) layer h1 x = - 1
                     \<or> fold (label_vertex k p i) layer h1 x = int i)))
       \<and> (\<forall>n islands x. final (h x) \<longrightarrow>
              final_labels (radius_loop k p n (h, v, islands)) x = h x)"
proof -
  have a: "\<forall>x. h1 x = h x \<or> (h x = - 3 \<and> h1 x = - 2)"
    using getNextLayer_grows [OF assms] by simp
  have b: "\<forall>x \<in> set layer. x < luMSB \<longrightarrow> h x = - 3 \<and> h1 x = - 2"
    using layer_kmers_marked [OF assms] by simp
  have c: "\<forall>x. fold (label_vertex k p i) layer h1 x = h1 x
        \<or> (h1 x = - 2 \<and> x \<in> set layer
           \<and> (fold (label_vertex k p i) layer h1 x = - 1 \<or> fold (label_vertex k p i) layer h1 x = int i))"
  proof
    fix x
    show "fold (label_vertex k p i) layer h1 x = h1 x
        \<or> (h1 x = - 2 \<and> x \<in> set layer
           \<and> (fold (label_vertex k p i) layer h1 x = - 1 \<or> fold (label_vertex k p i) layer h1 x = int i))"
      using fold_label_changes [of k p i layer h1 x] layer_kmers_marked [OF assms, of x] by blast
  qed
  have d: "\<forall>n islands x. final (h x) \<longrightarrow>
              final_labels (radius_loop k p n (h, v, islands)) x = h x"
    using radius_loop_final [of "(h, v, _)" _ k p] by (simp add: final_labels_def)
  from a b c d show ?thesis by (intro conjI)
qed

theorem label_state_machine_witness:
  "(1::kmer) \<in> set (fst (getNextLayer [0] 1 ((\<lambda>_. - 3)(0 := 0)) (\<lambda>_. False)))
   \<and> (1::kmer) < luMSB
   \<and> ((\<lambda>_. - 3)(0 := 0 :: int)) (1::kmer) = - 3
   \<and> fst (snd (getNextLayer [0] 1 ((\<lambda>_. - 3)(0 := 0)) (\<lambda>_. False))) 1 = - 2
   \<and> final (((\<lambda>_. - 3)(0 := 0 :: int)) (0::kmer))
   \<and> final_labels (radius_loop 1 1 1 ((\<lambda>_. - 3)(0 := 0), \<lambda>_. False, [IslandInit [0]])) 0
       = ((\<lambda>_. - 3)(0 := 0 :: int)) (0::kmer)"
proof -
  let ?h = "(\<lambda>_. - 3)(0 := 0) :: labels"
  let ?R = "getNextLayer [0] 1 ?h (\<lambda>_. False)"
  have R: "?R = (fst ?R, fst (snd ?R), snd (snd ?R))" by simp
  have m: "(1::kmer) \<in> set (fst ?R)" by code_simp
  have l: "(1::kmer) < luMSB" by (simp add: luMSB_def)
  have f: "final (?h 0)" by (simp add: final_def)
  note T = label_state_machine [OF R, of 1 0]
  have t2: "?h 1 = - 3 \<and> fst (snd ?R) 1 = - 2"
    using T [THEN conjunct2, THEN conjunct1, THEN bspec, OF m] l by blast
  have t4: "final_labels (radius_loop 1 1 1 (?h, \<lambda>_. False, [IslandInit [0]])) 0 = ?h 0"
    using T [THEN conjunct2, THEN conjunct2, THEN conjunct2] f by blast
  from m l t2 f t4 show ?thesis by blast
qed

text \<open>
  Claim C3, as stated for the whole run, fails in the seeding loop of \<^verbatim>\<open>main\<close>: it
  writes the index of the clique over the label \<open>-3\<close> of a member, which never holds
  \<open>-2\<close>; and a k-mer that is a member of two cliques has its first index, a final
  label, replaced by the second.
\<close>

theorem seeding_writes_index_directly:
  "(\<lambda>_. - 3 :: int) (0::kmer) = - 3
   \<and> fst (seed_clique [[0], [0]] 0 (\<lambda>_. - 3, \<lambda>_. False)) 0 = 0
   \<and> fst (seed_clique [[0], [0]] 1 (seed_clique [[0], [0]] 0 (\<lambda>_. - 3, \<lambda>_. False))) 0 = 1
   \<and> final_labels (partition_cliques 1 1 0 [[0], [0]]) 0 = 1"
  by (simp add: seed_clique_def seed_member_def luMSB_def partition_cliques_def seeded_def final_labels_def)

section \<open>The frontier of an island\<close>













section \<open>The two ways to find a conflict\<close>



























section \<open>The greedy set is independent and covers the space\<close>





























section \<open>The radius of an island, proved\<close>

subsection \<open>The symbols of an edited string\<close>














subsection \<open>The Levenshtein distance is a metric\<close>






subsection \<open>One edit of the packed string is one edit of the string\<close>







subsection \<open>The edits keep a vertex well formed\<close>




















subsection \<open>The layers stay within the radius\<close>



















subsection \<open>The seeding loop\<close>














section \<open>The sensitivity of the labeling, proved\<close>

subsection \<open>An alignment can be followed in any order\<close>
















subsection \<open>An edit of the string of a vertex leads to one of its children\<close>














subsection \<open>Vertices within the Levenshtein distance are within as many steps\<close>














subsection \<open>The probe meets every vertex within its depth\<close>







subsection \<open>The rounds keep differently labeled k-mers apart\<close>

















end
